theory Spec2Isabelle
  imports Main "HOL-Library.FSet"
begin

section \<open>Data model (src/types/screenshot-queue.ts)\<close>

text \<open>
  The four values of \<open>ScreenshotItem['status']\<close>:
  \<open>'pending' | 'processing' | 'completed' | 'error'\<close>.
\<close>

datatype item_status = Pending | Processing | Completed | Error

text \<open>
  The optional \<open>metadata\<close> object of an item; each of its fields is optional. Its field
  \<open>error\<close> is \<open>error_message\<close> here (\<open>error\<close> is a counter of the statistics below), and
  the field \<open>id\<close> of an item is \<open>item_id\<close> (\<open>id\<close> is the identity function of HOL).
\<close>

record metadata =
  problemStatement :: "string option"
  solution :: "string option"
  error_message :: "string option"

record ScreenshotItem =
  item_id :: string
  path :: string
  preview :: string
  status :: item_status
  timestamp :: int
  metadata :: "metadata option"

record QueueManagerConfig =
  maxConcurrent :: int
  autoProcess :: bool
  retryAttempts :: int
  retryDelay :: int

text \<open>\<open>Partial<QueueManagerConfig>\<close>: every field may be absent.\<close>

record PartialConfig =
  p_maxConcurrent :: "int option"
  p_autoProcess :: "bool option"
  p_retryAttempts :: "int option"
  p_retryDelay :: "int option"

text \<open>The keys of \<open>QueueManagerEvents\<close>.\<close>

datatype event = itemAdded | itemProcessing | itemCompleted | itemError | itemRemoved

text \<open>
  How the two awaited pipeline stages of \<open>processNext\<close> end: both resolve
  (\<open>problemInfo.problem_statement\<close> and \<open>solution.solution?.code\<close>), or one of them
  rejects with an error carrying \<open>message\<close>.
\<close>

datatype outcome = Resolved string "string option" | Rejected string

text \<open>The object returned by \<open>getQueueStats\<close>.\<close>

record stats =
  total :: nat
  pending :: nat
  processing :: nat
  completed :: nat
  error :: nat

section \<open>The manager's state\<close>

text \<open>
  Items are JavaScript objects, shared by reference between the \<open>queue\<close> array, the
  closures of suspended \<open>processNext\<close> calls and the payloads handed to listeners.
  The model keeps them in an object store \<open>heap\<close>; a reference is an index into it.

  \<^item> \<open>queue\<close>, \<open>processingQueue\<close>, \<open>config\<close>, \<open>retryCounts\<close> are the private fields of
    \<open>ScreenshotQueueManager\<close>;
  \<^item> \<open>listeners\<close> is \<open>EventEmitter.events\<close>;
  \<^item> \<open>emitted\<close> records every call of \<open>EventEmitter.emit\<close> (event and payload reference);
  \<^item> \<open>awaiting\<close> holds the \<open>nextItem\<close> of every \<open>processNext\<close> call suspended at its
    \<open>await\<close>;
  \<^item> \<open>timers\<close> holds the delay of every pending \<open>setTimeout\<close> callback;
  \<^item> \<open>extractCalls\<close> records every \<open>processWithAI\<close> call: the \<open>nextItem\<close> of the
    \<open>processNext\<close> call that made it, and the argument.
\<close>

text \<open>
  A listener is a function object: its identity (what \<open>cb !== callback\<close> compares) and
  what it does to the payload object it is called with. Listeners that throw or that call
  back into the manager are not modelled.
\<close>

type_synonym listener = "nat \<times> (ScreenshotItem \<Rightarrow> ScreenshotItem)"

record manager =
  heap :: "ScreenshotItem list"
  queue :: "nat list"
  processingQueue :: "string fset"
  config :: QueueManagerConfig
  retryCounts :: "string \<rightharpoonup> nat"
  listeners :: "event \<Rightarrow> listener list"
  emitted :: "(event \<times> nat) list"
  awaiting :: "nat list"
  timers :: "int list"
  extractCalls :: "(nat \<times> string) list"

section \<open>EventEmitter\<close>

definition on :: "event \<Rightarrow> listener \<Rightarrow> manager \<Rightarrow> manager" where
  "on ev callback s = s\<lparr>listeners := (listeners s)(ev := listeners s ev @ [callback])\<rparr>"

definition off :: "event \<Rightarrow> listener \<Rightarrow> manager \<Rightarrow> manager" where
  "off ev callback s =
     s\<lparr>listeners := (listeners s)(ev := filter (\<lambda>cb. fst cb \<noteq> fst callback) (listeners s ev))\<rparr>"

text \<open>
  \<open>emit(event, data)\<close> calls every listener of the event, in registration order, with the
  object \<open>data\<close> itself.
\<close>

definition emit :: "event \<Rightarrow> nat \<Rightarrow> manager \<Rightarrow> manager" where
  "emit ev r s =
     s\<lparr>heap := fold (\<lambda>cb h. h[r := snd cb (h ! r)]) (listeners s ev) (heap s),
       emitted := emitted s @ [(ev, r)]\<rparr>"

section \<open>ScreenshotQueueManager\<close>

definition mergeConfig :: "QueueManagerConfig \<Rightarrow> PartialConfig \<Rightarrow> QueueManagerConfig" where
  "mergeConfig c p =
     \<lparr>maxConcurrent = (case p_maxConcurrent p of None \<Rightarrow> maxConcurrent c | Some v \<Rightarrow> v),
      autoProcess = (case p_autoProcess p of None \<Rightarrow> autoProcess c | Some v \<Rightarrow> v),
      retryAttempts = (case p_retryAttempts p of None \<Rightarrow> retryAttempts c | Some v \<Rightarrow> v),
      retryDelay = (case p_retryDelay p of None \<Rightarrow> retryDelay c | Some v \<Rightarrow> v)\<rparr>"

definition defaultConfig :: QueueManagerConfig where
  "defaultConfig =
     \<lparr>maxConcurrent = 3, autoProcess = True, retryAttempts = 3, retryDelay = 1000\<rparr>"

text \<open>The constructor.\<close>

definition newManager :: "PartialConfig \<Rightarrow> manager" where
  "newManager p =
     \<lparr>heap = [], queue = [], processingQueue = {||},
      config = mergeConfig defaultConfig p,
      retryCounts = Map.empty, listeners = (\<lambda>ev. []),
      emitted = [], awaiting = [], timers = [], extractCalls = []\<rparr>"

text \<open>
  \<open>processNext\<close> up to its first \<open>await\<close>: the two guards, the admission of the first
  pending item and the call of \<open>processWithAI(nextItem.path)\<close>. The call then waits for
  the pipeline.
\<close>

definition processNext :: "manager \<Rightarrow> manager" where
  "processNext s =
     (if maxConcurrent (config s) \<le> int (fcard (processingQueue s)) then s
      else case find (\<lambda>r. status (heap s ! r) = Pending) (queue s) of
        None \<Rightarrow> s
      | Some r \<Rightarrow>
          let s1 = s\<lparr>processingQueue := finsert (item_id (heap s ! r)) (processingQueue s)\<rparr>;
              s2 = s1\<lparr>heap := (heap s1)[r := (heap s1 ! r)\<lparr>status := Processing\<rparr>]\<rparr>;
              s3 = emit itemProcessing r s2
          in s3\<lparr>extractCalls := extractCalls s3 @ [(r, path (heap s3 ! r))],
                awaiting := awaiting s3 @ [r]\<rparr>)"

text \<open>
  The \<open>try\<close> and \<open>catch\<close> blocks of \<open>processNext\<close>, run when the pipeline of the
  suspended call for \<open>nextItem = r\<close> has ended.
\<close>

definition tryCatch :: "nat \<Rightarrow> outcome \<Rightarrow> manager \<Rightarrow> manager" where
  "tryCatch r out s =
     (case out of
        Resolved problem_statement code \<Rightarrow>
          emit itemCompleted r
            (s\<lparr>heap := (heap s)[r := (heap s ! r)
                 \<lparr>status := Completed,
                  metadata := Some \<lparr>problemStatement = Some problem_statement,
                                    solution = Some (case code of None \<Rightarrow> [] | Some c \<Rightarrow> c),
                                    error_message = None\<rparr>\<rparr>]\<rparr>)
      | Rejected message \<Rightarrow>
          let retryCount = (case retryCounts s (item_id (heap s ! r)) of
                              None \<Rightarrow> 0 | Some n \<Rightarrow> n)
          in if int retryCount < retryAttempts (config s) then
               s\<lparr>retryCounts := (retryCounts s)(item_id (heap s ! r) \<mapsto> retryCount + 1),
                 heap := (heap s)[r := (heap s ! r)\<lparr>status := Pending\<rparr>],
                 processingQueue := processingQueue s |-| {|item_id (heap s ! r)|},
                 timers := timers s @ [retryDelay (config s)]\<rparr>
             else
               emit itemError r
                 (s\<lparr>heap := (heap s)[r := (heap s ! r)
                      \<lparr>status := Error,
                       metadata := Some \<lparr>problemStatement = None, solution = None,
                                         error_message = Some message\<rparr>\<rparr>]\<rparr>))"

text \<open>The two deletions of the \<open>finally\<close> block.\<close>

definition finallyDelete :: "nat \<Rightarrow> manager \<Rightarrow> manager" where
  "finallyDelete r s =
     s\<lparr>processingQueue := processingQueue s |-| {|item_id (heap s ! r)|},
       retryCounts := (retryCounts s)(item_id (heap s ! r) := None)\<rparr>"

text \<open>
  The rest of a suspended \<open>processNext\<close> call: \<open>try\<close>/\<open>catch\<close>, then \<open>finally\<close>, which
  runs on every path (also after the \<open>return\<close> of the retry branch) and ends with the
  next \<open>processNext()\<close> when \<open>autoProcess\<close> is set.
\<close>

definition resume :: "nat \<Rightarrow> outcome \<Rightarrow> manager \<Rightarrow> manager" where
  "resume r out s =
     (let s1 = finallyDelete r (tryCatch r out s)
      in if autoProcess (config s1) then processNext s1 else s1)"

text \<open>
  \<open>addScreenshot\<close>; the generated id and \<open>Date.now()\<close> are inputs. The new object gets
  the next free reference.
\<close>

definition addScreenshot :: "string \<Rightarrow> int \<Rightarrow> string \<Rightarrow> string \<Rightarrow> manager \<Rightarrow> string \<times> manager" where
  "addScreenshot new_id now pth prev s =
     (let r = length (heap s);
          item = \<lparr>item_id = new_id, path = pth, preview = prev, status = Pending,
                  timestamp = now, metadata = None\<rparr>;
          s1 = emit itemAdded r (s\<lparr>heap := heap s @ [item], queue := queue s @ [r]\<rparr>)
      in (new_id, if autoProcess (config s1) then processNext s1 else s1))"

text \<open>\<open>Array.prototype.findIndex\<close>: the first index whose element satisfies \<open>P\<close>, or \<open>-1\<close>.\<close>

fun findIndex :: "('a \<Rightarrow> bool) \<Rightarrow> 'a list \<Rightarrow> int" where
  "findIndex P [] = - 1"
| "findIndex P (x # xs) =
     (if P x then 0 else (let k = findIndex P xs in if k = - 1 then - 1 else k + 1))"

definition removeScreenshot :: "string \<Rightarrow> manager \<Rightarrow> bool \<times> manager" where
  "removeScreenshot i s =
     (let index = findIndex (\<lambda>r. item_id (heap s ! r) = i) (queue s)
      in if index = - 1 then (False, s)
         else
           let item = queue s ! nat index;
               s1 = s\<lparr>queue := take (nat index) (queue s) @ drop (nat index + 1) (queue s),
                      processingQueue := processingQueue s |-| {|i|},
                      retryCounts := (retryCounts s)(i := None)\<rparr>
           in (True, emit itemRemoved item s1))"

text \<open>\<open>stats[item.status]++\<close>\<close>

definition bump :: "item_status \<Rightarrow> stats \<Rightarrow> stats" where
  "bump st acc =
     (case st of
        Pending \<Rightarrow> acc\<lparr>pending := pending acc + 1\<rparr>
      | Processing \<Rightarrow> acc\<lparr>processing := processing acc + 1\<rparr>
      | Completed \<Rightarrow> acc\<lparr>completed := completed acc + 1\<rparr>
      | Error \<Rightarrow> acc\<lparr>error := error acc + 1\<rparr>)"

definition getQueueStats :: "manager \<Rightarrow> stats \<times> manager" where
  "getQueueStats s =
     (fold (\<lambda>r acc. bump (status (heap s ! r)) acc) (queue s)
        \<lparr>total = length (queue s), pending = 0, processing = 0, completed = 0, error = 0\<rparr>,
      s)"

text \<open>\<open>getQueue\<close> returns the items of the queue, in order.\<close>

definition getQueue :: "manager \<Rightarrow> ScreenshotItem list" where
  "getQueue s = map (\<lambda>r. heap s ! r) (queue s)"

definition getProcessingCount :: "manager \<Rightarrow> nat" where
  "getProcessingCount s = fcard (processingQueue s)"

definition clearQueue :: "manager \<Rightarrow> manager" where
  "clearQueue s = s\<lparr>queue := [], processingQueue := {||}, retryCounts := Map.empty\<rparr>"

definition updateConfig :: "PartialConfig \<Rightarrow> manager \<Rightarrow> manager" where
  "updateConfig newConfig s = s\<lparr>config := mergeConfig (config s) newConfig\<rparr>"

section \<open>Executions\<close>

text \<open>
  What can happen to a manager: a call of one of its public methods, the end of the
  pipeline of a suspended \<open>processNext\<close> call, or a retry timer firing.
\<close>

datatype action =
    AddScreenshot string int string string
  | ProcessNext
  | PipelineEnds nat outcome
  | TimerFires
  | RemoveScreenshot string
  | GetQueueStats
  | ClearQueue
  | UpdateConfig PartialConfig
  | On event listener
  | Off event listener

fun step :: "action \<Rightarrow> manager \<Rightarrow> manager" where
  "step (AddScreenshot new_id now pth prev) s = snd (addScreenshot new_id now pth prev s)"
| "step ProcessNext s = processNext s"
| "step (PipelineEnds r out) s =
     (if r \<in> set (awaiting s) then resume r out (s\<lparr>awaiting := remove1 r (awaiting s)\<rparr>)
      else s)"
| "step TimerFires s =
     (case timers s of [] \<Rightarrow> s | d # ds \<Rightarrow> processNext (s\<lparr>timers := ds\<rparr>))"
| "step (RemoveScreenshot i) s = snd (removeScreenshot i s)"
| "step GetQueueStats s = snd (getQueueStats s)"
| "step ClearQueue s = clearQueue s"
| "step (UpdateConfig p) s = updateConfig p s"
| "step (On ev cb) s = on ev cb s"
| "step (Off ev cb) s = off ev cb s"

fun run :: "action list \<Rightarrow> manager \<Rightarrow> manager" where
  "run [] s = s"
| "run (a # as) s = run as (step a s)"

section \<open>Scenarios\<close>

text \<open>The configuration of the test suite, with the concurrency cap as a parameter.\<close>

definition manualConfig :: "int \<Rightarrow> int \<Rightarrow> PartialConfig" where
  "manualConfig cap retries =
     \<lparr>p_maxConcurrent = Some cap, p_autoProcess = Some False,
      p_retryAttempts = Some retries, p_retryDelay = Some 100\<rparr>"

text \<open>Two items submitted under a cap of one; the first has been dispatched.\<close>

definition capReached :: manager where
  "capReached =
     run [AddScreenshot ''a'' 1 ''/a.png'' ''pa'', AddScreenshot ''b'' 2 ''/b.png'' ''pb'',
          ProcessNext]
       (newManager (manualConfig 1 2))"

text \<open>One item submitted and dispatched under a cap of two.\<close>

definition oneInFlight :: manager where
  "oneInFlight =
     run [AddScreenshot ''a'' 1 ''/a.png'' ''pa'', ProcessNext] (newManager (manualConfig 2 2))"

text \<open>A partial configuration that sets the concurrency cap only.\<close>

definition capOnly :: "int \<Rightarrow> PartialConfig" where
  "capOnly cap =
     \<lparr>p_maxConcurrent = Some cap, p_autoProcess = None,
      p_retryAttempts = None, p_retryDelay = None\<rparr>"

text \<open>Two items submitted and both dispatched.\<close>

definition twoInFlight :: "action list" where
  "twoInFlight =
     [AddScreenshot ''a'' 1 ''/a.png'' ''pa'', AddScreenshot ''b'' 2 ''/b.png'' ''pb'',
      ProcessNext, ProcessNext]"

text \<open>Scenario 5 of the specification: the cap is lowered to one while two are in flight.\<close>

definition capLowered :: manager where
  "capLowered = run (twoInFlight @ [UpdateConfig (capOnly 1)]) (newManager (manualConfig 2 2))"

text \<open>
  The cap is raised to three, a third item is dispatched, one pipeline ends, and the cap
  goes back to two: it is never set below the number of ids in flight.
\<close>

definition capRaised :: "action list" where
  "capRaised =
     twoInFlight @
     [UpdateConfig (capOnly 3), AddScreenshot ''c'' 3 ''/c.png'' ''pc'', ProcessNext,
      PipelineEnds 0 (Resolved ''problem'' (Some ''code'')), UpdateConfig (capOnly 2)]"

text \<open>A listener that writes to the item it is handed.\<close>

definition markCompleted :: listener where
  "markCompleted = (0, \<lambda>item. item\<lparr>status := Completed\<rparr>)"

definition submitOne :: "action list" where
  "submitOne = [AddScreenshot ''a'' 1 ''/a.png'' ''pa'']"

text \<open>A listener of \<open>itemRemoved\<close> that overwrites the preview of its payload.\<close>

definition stampGone :: listener where
  "stampGone = (1, \<lambda>item. item\<lparr>preview := ''gone''\<rparr>)"

text \<open>Two listeners registered, then two items submitted.\<close>

definition observed :: manager where
  "observed =
     run [On itemAdded markCompleted, On itemRemoved stampGone,
          AddScreenshot ''a'' 1 ''/a.png'' ''pa'', AddScreenshot ''b'' 2 ''/b.png'' ''pb'']
       (newManager (manualConfig 2 2))"



text \<open>The pipeline of the only item rejects once.\<close>

definition failedOnce :: manager where
  "failedOnce = step (PipelineEnds 0 (Rejected ''boom'')) oneInFlight"

text \<open>Scenario 4 of the specification: the item is removed while its pipeline runs.\<close>

definition removedInFlight :: manager where
  "removedInFlight = snd (removeScreenshot ''a'' oneInFlight)"

text \<open>
  Scenario 4 again, with another item submitted between the removal and the end of the
  pipeline; the parameter is \<open>retryAttempts\<close>.
\<close>

definition dispatchOne :: "action list" where
  "dispatchOne = [AddScreenshot ''a'' 1 ''/a.png'' ''pa'', ProcessNext]"

definition submitAnother :: "action list" where
  "submitAnother = [AddScreenshot ''b'' 2 ''/b.png'' ''pb'']"

definition removedThenSubmitted :: "int \<Rightarrow> manager" where
  "removedThenSubmitted retries =
     run submitAnother
       (snd (removeScreenshot ''a'' (run dispatchOne (newManager (manualConfig 2 retries)))))"

text \<open>Scenario 5 with a third item waiting when the cap is lowered.\<close>

definition capLoweredPending :: manager where
  "capLoweredPending =
     run (twoInFlight @ [AddScreenshot ''c'' 3 ''/c.png'' ''pc'', UpdateConfig (capOnly 1)])
       (newManager (manualConfig 2 2))"

section \<open>The concurrency bound as a predicate\<close>

definition withinCap :: "manager \<Rightarrow> bool" where
  "withinCap s = (int (fcard (processingQueue s)) \<le> maxConcurrent (config s))"

text \<open>
  An action keeps the cap when it is not an \<open>updateConfig\<close> that sets \<open>maxConcurrent\<close>
  below the number of ids in flight at that moment.
\<close>

fun capKept :: "action \<Rightarrow> manager \<Rightarrow> bool" where
  "capKept (UpdateConfig p) s =
     (case p_maxConcurrent p of
        None \<Rightarrow> True
      | Some m \<Rightarrow> int (fcard (processingQueue s)) \<le> m)"
| "capKept a s = True"

fun capKeptAlong :: "action list \<Rightarrow> manager \<Rightarrow> bool" where
  "capKeptAlong [] s = True"
| "capKeptAlong (a # as) s = (capKept a s \<and> capKeptAlong as (step a s))"

section \<open>Solver calls and the conditions of their count\<close>


text \<open>A listener that never changes the status of the item it is handed.\<close>

definition statusKept :: "listener \<Rightarrow> bool" where
  "statusKept cb = (\<forall>item. status (snd cb item) = status item)"

text \<open>
  Actions that leave the count of attempts to the manager: no listener that writes a
  status is registered, and \<open>updateConfig\<close> does not set \<open>retryAttempts\<close>.
\<close>

fun steady :: "action \<Rightarrow> bool" where
  "steady (On ev cb) = statusKept cb"
| "steady (UpdateConfig p) = (p_retryAttempts p = None)"
| "steady a = True"

section \<open>Invariants of the store\<close>

text \<open>References in the queue are distinct and point into the store.\<close>

definition validRefs :: "manager \<Rightarrow> bool" where
  "validRefs s = (distinct (queue s) \<and> list_all (\<lambda>q. q < length (heap s)) (queue s))"

definition statuses :: "manager \<Rightarrow> item_status list" where
  "statuses s = map status (heap s)"

definition settled :: "manager \<Rightarrow> bool" where
  "settled s = (retryCounts s = Map.empty \<and> (\<forall>ev. list_all statusKept (listeners s ev))
                \<and> validRefs s)"

text \<open>What \<open>processNext\<close> needs from the state it starts in.\<close>

definition ready :: "manager \<Rightarrow> bool" where
  "ready s = (list_all statusKept (listeners s itemProcessing)
              \<and> list_all (\<lambda>q. q < length (heap s)) (queue s))"



section \<open>Field lemmas\<close>

lemma emit_fields [simp]:
  "queue (emit ev r s) = queue s"
  "processingQueue (emit ev r s) = processingQueue s"
  "config (emit ev r s) = config s"
  "retryCounts (emit ev r s) = retryCounts s"
  "listeners (emit ev r s) = listeners s"
  "awaiting (emit ev r s) = awaiting s"
  "timers (emit ev r s) = timers s"
  "extractCalls (emit ev r s) = extractCalls s"
  "emitted (emit ev r s) = emitted s @ [(ev, r)]"
  by (simp_all add: emit_def)

lemma processNext_fields [simp]:
  "queue (processNext s) = queue s"
  "config (processNext s) = config s"
  "retryCounts (processNext s) = retryCounts s"
  "listeners (processNext s) = listeners s"
  "timers (processNext s) = timers s"
  by (simp_all add: processNext_def Let_def split: option.splits)

lemma tryCatch_fields [simp]:
  "config (tryCatch r out s) = config s"
  "queue (tryCatch r out s) = queue s"
  by (simp_all add: tryCatch_def Let_def split: outcome.splits)

lemma finallyDelete_fields [simp]:
  "queue (finallyDelete r s) = queue s"
  "config (finallyDelete r s) = config s"
  "heap (finallyDelete r s) = heap s"
  "emitted (finallyDelete r s) = emitted s"
  by (simp_all add: finallyDelete_def)

lemma resume_queue: "queue (resume r out s) = queue s"
  by (simp add: resume_def Let_def)

lemma resume_retryCounts:
  "retryCounts (resume r out s) = retryCounts (finallyDelete r (tryCatch r out s))"
  by (simp add: resume_def Let_def)

text \<open>Writing the status of an object does not change its id.\<close>

lemma item_id_status_update:
  "item_id (h[r := (h ! r)\<lparr>status := v\<rparr>] ! r) = item_id (h ! r)"
  by (cases "r < length h") (simp_all add: list_update_beyond)

section \<open>Statistics\<close>

lemma fold_bump_total: "total (fold (\<lambda>r. bump (f r)) xs acc) = total acc"
  by (induction xs arbitrary: acc) (simp_all add: bump_def split: item_status.splits)

lemma fold_bump_pending:
  "pending (fold (\<lambda>r. bump (f r)) xs acc)
     = pending acc + length (filter (\<lambda>r. f r = Pending) xs)"
  by (induction xs arbitrary: acc) (simp_all add: bump_def split: item_status.splits)

lemma fold_bump_processing:
  "processing (fold (\<lambda>r. bump (f r)) xs acc)
     = processing acc + length (filter (\<lambda>r. f r = Processing) xs)"
  by (induction xs arbitrary: acc) (simp_all add: bump_def split: item_status.splits)

lemma fold_bump_completed:
  "completed (fold (\<lambda>r. bump (f r)) xs acc)
     = completed acc + length (filter (\<lambda>r. f r = Completed) xs)"
  by (induction xs arbitrary: acc) (simp_all add: bump_def split: item_status.splits)

lemma fold_bump_error:
  "error (fold (\<lambda>r. bump (f r)) xs acc)
     = error acc + length (filter (\<lambda>r. f r = Error) xs)"
  by (induction xs arbitrary: acc) (simp_all add: bump_def split: item_status.splits)

lemma status_partition:
  "length (filter (\<lambda>r. f r = Pending) xs) + length (filter (\<lambda>r. f r = Processing) xs)
   + length (filter (\<lambda>r. f r = Completed) xs) + length (filter (\<lambda>r. f r = Error) xs)
   = length xs"
proof (induction xs)
  case Nil
  show ?case by simp
next
  case (Cons x xs)
  then show ?case by (cases "f x") simp_all
qed

text \<open>
  Claim C6. In every state of the manager (reachable or not), \<open>getQueueStats\<close> returns
  counts with \<open>total = pending + processing + completed + error\<close>; \<open>total\<close> is the length
  of the queue and each of the four counts is the number of queue entries whose item has
  that status; the call leaves the manager's state as it was.
\<close>

theorem getQueueStats_counts:
  "total (fst (getQueueStats s)) =
     pending (fst (getQueueStats s)) + processing (fst (getQueueStats s))
     + completed (fst (getQueueStats s)) + error (fst (getQueueStats s))
   \<and> total (fst (getQueueStats s)) = length (queue s)
   \<and> pending (fst (getQueueStats s))
       = length (filter (\<lambda>r. status (heap s ! r) = Pending) (queue s))
   \<and> processing (fst (getQueueStats s))
       = length (filter (\<lambda>r. status (heap s ! r) = Processing) (queue s))
   \<and> completed (fst (getQueueStats s))
       = length (filter (\<lambda>r. status (heap s ! r) = Completed) (queue s))
   \<and> error (fst (getQueueStats s))
       = length (filter (\<lambda>r. status (heap s ! r) = Error) (queue s))
   \<and> snd (getQueueStats s) = s"
  using status_partition [of "\<lambda>r. status (heap s ! r)" "queue s"]
  by (simp add: getQueueStats_def fold_bump_total fold_bump_pending fold_bump_processing
      fold_bump_completed fold_bump_error)

section \<open>Dispatch guards\<close>

text \<open>
  Claim C7. When no item of the queue is pending, or when the in-flight set already holds
  at least \<open>maxConcurrent\<close> ids, \<open>processNext\<close> returns the state it was given: no event is
  emitted and the queue, the items, the in-flight set and the retry counts are unchanged.
\<close>

theorem processNext_noop:
  assumes "(\<forall>r \<in> set (queue s). status (heap s ! r) \<noteq> Pending)
           \<or> maxConcurrent (config s) \<le> int (fcard (processingQueue s))"
  shows "processNext s = s"
proof (cases "maxConcurrent (config s) \<le> int (fcard (processingQueue s))")
  case True
  then show ?thesis by (simp add: processNext_def)
next
  case False
  with assms have "\<forall>r \<in> set (queue s). status (heap s ! r) \<noteq> Pending" by blast
  then have "find (\<lambda>r. status (heap s ! r) = Pending) (queue s) = None"
    by (simp add: find_None_iff)
  then show ?thesis by (simp add: processNext_def)
qed

theorem processNext_noop_witness:
  "maxConcurrent (config capReached) \<le> int (fcard (processingQueue capReached))
   \<and> map (\<lambda>r. status (heap capReached ! r)) (queue capReached) = [Processing, Pending]
   \<and> processNext capReached = capReached
   \<and> map (\<lambda>r. status (heap oneInFlight ! r)) (queue oneInFlight) = [Processing]
   \<and> int (fcard (processingQueue oneInFlight)) < maxConcurrent (config oneInFlight)
   \<and> processNext oneInFlight = oneInFlight"
proof -
  have full: "maxConcurrent (config capReached) \<le> int (fcard (processingQueue capReached))"
    by code_simp
  have pend: "map (\<lambda>r. status (heap capReached ! r)) (queue capReached) = [Processing, Pending]"
    by code_simp
  have idle: "map (\<lambda>r. status (heap oneInFlight ! r)) (queue oneInFlight) = [Processing]"
    by code_simp
  have room: "int (fcard (processingQueue oneInFlight)) < maxConcurrent (config oneInFlight)"
    by code_simp
  have "\<forall>x \<in> set (map (\<lambda>r. status (heap oneInFlight ! r)) (queue oneInFlight)). x \<noteq> Pending"
    unfolding idle by simp
  then have none: "\<forall>r \<in> set (queue oneInFlight). status (heap oneInFlight ! r) \<noteq> Pending"
    by simp
  from full have a: "processNext capReached = capReached"
    by (intro processNext_noop) blast
  from none have b: "processNext oneInFlight = oneInFlight"
    by (intro processNext_noop) blast
  from full pend idle room a b show ?thesis by blast
qed

section \<open>Removal and clearing\<close>

lemma findIndex_ge: "- 1 \<le> findIndex P xs"
  by (induction xs) (simp_all add: Let_def)

lemma findIndex_none: "(findIndex P xs = - 1) = (\<forall>x \<in> set xs. \<not> P x)"
proof (induction xs)
  case Nil
  show ?case by simp
next
  case (Cons x xs)
  have "findIndex P xs + 1 \<noteq> - 1" using findIndex_ge [of P xs] by arith
  with Cons show ?case by (simp add: Let_def)
qed

text \<open>
  Claim C8. \<open>removeScreenshot\<close> with an id that no item of the queue has returns \<open>false\<close>
  and the state it was given: nothing is thrown, no event is emitted, and the queue, the
  in-flight set and the retry counts are unchanged.
\<close>

theorem removeScreenshot_unknown:
  assumes "\<forall>r \<in> set (queue s). item_id (heap s ! r) \<noteq> i"
  shows "removeScreenshot i s = (False, s)"
  using assms by (simp add: removeScreenshot_def findIndex_none Let_def)

theorem removeScreenshot_unknown_witness:
  "map (\<lambda>r. item_id (heap capReached ! r)) (queue capReached) = [''a'', ''b'']
   \<and> removeScreenshot ''non-existent-id'' capReached = (False, capReached)"
proof -
  have ids: "map (\<lambda>r. item_id (heap capReached ! r)) (queue capReached) = [''a'', ''b'']"
    by code_simp
  have "\<forall>x \<in> set (map (\<lambda>r. item_id (heap capReached ! r)) (queue capReached)).
          x \<noteq> ''non-existent-id''"
    unfolding ids by simp
  then have h: "\<forall>r \<in> set (queue capReached). item_id (heap capReached ! r) \<noteq> ''non-existent-id''"
    by simp
  from ids removeScreenshot_unknown [OF h] show ?thesis by blast
qed

text \<open>
  Claim C9. \<open>clearQueue\<close> empties the queue, the in-flight set and the retry counts and
  emits nothing: the record of emitted events is the one before the call, so no
  \<open>itemRemoved\<close> is raised for the cleared items.
\<close>

theorem clearQueue_silent:
  "queue (clearQueue s) = [] \<and> processingQueue (clearQueue s) = {||}
   \<and> retryCounts (clearQueue s) = Map.empty \<and> emitted (clearQueue s) = emitted s"
  by (simp add: clearQueue_def)

section \<open>Retry counts\<close>

lemma settled_retryCounts_empty:
  assumes "retryCounts s = Map.empty"
  shows "retryCounts (finallyDelete r (tryCatch r out s)) = Map.empty"
proof (cases out)
  case (Resolved ps c)
  with assms show ?thesis by (simp add: finallyDelete_def tryCatch_def)
next
  case (Rejected m)
  with assms show ?thesis
    by (simp add: finallyDelete_def tryCatch_def Let_def item_id_status_update)
qed

lemma step_retryCounts_empty:
  assumes "retryCounts s = Map.empty"
  shows "retryCounts (step a s) = Map.empty"
proof (cases a)
  case (AddScreenshot i n p v)
  with assms show ?thesis by (simp add: addScreenshot_def Let_def)
next
  case (PipelineEnds r out)
  have "retryCounts (s\<lparr>awaiting := remove1 r (awaiting s)\<rparr>) = Map.empty"
    using assms by simp
  then have "retryCounts (resume r out (s\<lparr>awaiting := remove1 r (awaiting s)\<rparr>)) = Map.empty"
    unfolding resume_retryCounts by (rule settled_retryCounts_empty)
  with PipelineEnds assms show ?thesis by simp
next
  case TimerFires
  with assms show ?thesis by (simp split: list.splits)
next
  case (RemoveScreenshot i)
  with assms show ?thesis by (simp add: removeScreenshot_def Let_def)
qed (use assms in \<open>simp_all add: getQueueStats_def clearQueue_def updateConfig_def on_def off_def\<close>)

lemma run_retryCounts_empty:
  "retryCounts s = Map.empty \<Longrightarrow> retryCounts (run acts s) = Map.empty"
  by (induction acts arbitrary: s) (simp_all add: step_retryCounts_empty)


text \<open>
  A consequence for retries: in a reachable state with \<open>retryAttempts\<close> positive, a
  rejected pipeline always takes the retry branch, so no \<open>itemError\<close> is emitted.
\<close>

lemma failure_always_retried:
  assumes "0 < retryAttempts (config (run acts (newManager p)))"
  shows "emitted (tryCatch r (Rejected m) (run acts (newManager p)))
           = emitted (run acts (newManager p))"
proof -
  have "retryCounts (newManager p) = Map.empty" by (simp add: newManager_def)
  then have "retryCounts (run acts (newManager p)) = Map.empty"
    by (rule run_retryCounts_empty)
  with assms show ?thesis by (simp add: tryCatch_def Let_def)
qed

text \<open>
  Claim C4. After one rejection with \<open>retryAttempts = 2\<close> the item is pending again and
  no event was emitted, and the \<open>catch\<close> block did set the count to 1; but once the call
  has ended the retry counts have no entry for the item, since \<open>finally\<close> deleted it.
\<close>

theorem transient_failure_loses_count:
  "retryAttempts (config oneInFlight) = 2
   \<and> retryCounts oneInFlight ''a'' = None
   \<and> retryCounts (tryCatch 0 (Rejected ''boom'') oneInFlight) ''a'' = Some 1
   \<and> retryCounts failedOnce ''a'' = None
   \<and> map status (heap failedOnce) = [Pending]
   \<and> emitted failedOnce = emitted oneInFlight"
  by code_simp

section \<open>The concurrency bound\<close>

lemma processNext_withinCap: "withinCap s \<Longrightarrow> withinCap (processNext s)"
  by (auto simp: withinCap_def processNext_def Let_def fcard_finsert_if split: option.splits)

lemma tryCatch_fcard: "fcard (processingQueue (tryCatch r out s)) \<le> fcard (processingQueue s)"
  by (simp add: tryCatch_def Let_def fcard_fminus1_le split: outcome.splits)

lemma finallyDelete_fcard:
  "fcard (processingQueue (finallyDelete r s)) \<le> fcard (processingQueue s)"
  by (simp add: finallyDelete_def fcard_fminus1_le)

lemma resume_withinCap:
  assumes "withinCap s"
  shows "withinCap (resume r out s)"
proof -
  have "fcard (processingQueue (finallyDelete r (tryCatch r out s))) \<le> fcard (processingQueue s)"
    using finallyDelete_fcard [of r "tryCatch r out s"] tryCatch_fcard [of r out s] by simp
  with assms have "withinCap (finallyDelete r (tryCatch r out s))"
    by (simp add: withinCap_def)
  then show ?thesis by (simp add: resume_def Let_def processNext_withinCap)
qed

lemma step_withinCap:
  assumes "withinCap s" and "capKept a s"
  shows "withinCap (step a s)"
proof (cases a)
  case (AddScreenshot i n p v)
  have "withinCap (emit itemAdded (length (heap s))
          (s\<lparr>heap := heap s @ [\<lparr>item_id = i, path = p, preview = v, status = Pending,
                timestamp = n, metadata = None\<rparr>], queue := queue s @ [length (heap s)]\<rparr>))"
    using assms(1) by (simp add: withinCap_def)
  with AddScreenshot show ?thesis
    by (simp add: addScreenshot_def Let_def processNext_withinCap)
next
  case ProcessNext
  with assms show ?thesis by (simp add: processNext_withinCap)
next
  case (PipelineEnds r out)
  have "withinCap (s\<lparr>awaiting := remove1 r (awaiting s)\<rparr>)"
    using assms(1) by (simp add: withinCap_def)
  then have "withinCap (resume r out (s\<lparr>awaiting := remove1 r (awaiting s)\<rparr>))"
    by (rule resume_withinCap)
  with PipelineEnds assms show ?thesis by simp
next
  case TimerFires
  show ?thesis
  proof (cases "timers s")
    case Nil
    with TimerFires assms show ?thesis by simp
  next
    case (Cons d ds)
    have "withinCap (s\<lparr>timers := ds\<rparr>)" using assms(1) by (simp add: withinCap_def)
    then have "withinCap (processNext (s\<lparr>timers := ds\<rparr>))" by (rule processNext_withinCap)
    with TimerFires Cons show ?thesis by simp
  qed
next
  case (RemoveScreenshot i)
  have "fcard (processingQueue s |-| {|i|}) \<le> fcard (processingQueue s)"
    by (rule fcard_fminus1_le)
  with RemoveScreenshot assms(1) show ?thesis
    by (simp add: removeScreenshot_def Let_def withinCap_def)
next
  case GetQueueStats
  with assms show ?thesis by (simp add: getQueueStats_def)
next
  case ClearQueue
  have "0 \<le> int (fcard (processingQueue s))" by simp
  with assms(1) have "0 \<le> maxConcurrent (config s)" unfolding withinCap_def by linarith
  with ClearQueue show ?thesis by (simp add: clearQueue_def withinCap_def fcard_fempty)
next
  case (UpdateConfig p)
  with assms show ?thesis
    by (simp add: updateConfig_def withinCap_def mergeConfig_def split: option.splits)
next
  case (On ev cb)
  with assms(1) show ?thesis by (simp add: on_def withinCap_def)
next
  case (Off ev cb)
  with assms(1) show ?thesis by (simp add: off_def withinCap_def)
qed

lemma run_withinCap:
  "withinCap s \<Longrightarrow> capKeptAlong acts s \<Longrightarrow> withinCap (run acts s)"
  by (induction acts arbitrary: s) (simp_all add: step_withinCap)

lemma capKeptAlong_take: "capKeptAlong acts s \<Longrightarrow> capKeptAlong (take n acts) s"
proof (induction acts arbitrary: s n)
  case Nil
  show ?case by simp
next
  case (Cons a as)
  then show ?case by (cases n) simp_all
qed

text \<open>
  Claim C3, as stated, fails: \<open>updateConfig\<close> merges the new cap without looking at the
  in-flight set, so lowering the cap to one while two ids are in flight leaves two ids in
  flight under a cap of one.
\<close>

theorem cap_lowered_counterexample:
  "fcard (processingQueue capLowered) = 2 \<and> maxConcurrent (config capLowered) = 1
   \<and> \<not> int (fcard (processingQueue capLowered)) \<le> maxConcurrent (config capLowered)"
  by code_simp

lemma processNext_growth:
  "int (fcard (processingQueue (processNext t)))
     \<le> max (int (fcard (processingQueue t))) (maxConcurrent (config t))"
  by (auto simp: processNext_def Let_def fcard_finsert_if split: option.splits)

lemma processNext_guard:
  "processNext t = t \<or> int (fcard (processingQueue t)) < maxConcurrent (config t)"
  by (auto simp: processNext_def)

lemma settle_fcard:
  "fcard (processingQueue (finallyDelete r (tryCatch r out t))) \<le> fcard (processingQueue t)"
  using finallyDelete_fcard [of r "tryCatch r out t"] tryCatch_fcard [of r out t] by simp

lemma resume_growth:
  "int (fcard (processingQueue (resume r out t)))
     \<le> max (int (fcard (processingQueue t))) (maxConcurrent (config t))"
proof (cases "autoProcess (config t)")
  case False
  then show ?thesis using settle_fcard [of r out t] by (simp add: resume_def Let_def)
next
  case True
  have "int (fcard (processingQueue (processNext (finallyDelete r (tryCatch r out t)))))
          \<le> max (int (fcard (processingQueue (finallyDelete r (tryCatch r out t)))))
                (maxConcurrent (config t))"
    using processNext_growth [of "finallyDelete r (tryCatch r out t)"] by simp
  with True show ?thesis using settle_fcard [of r out t] by (simp add: resume_def Let_def)
qed

lemma step_growth:
  "int (fcard (processingQueue (step a t)))
     \<le> max (int (fcard (processingQueue t))) (maxConcurrent (config t))"
proof (cases a)
  case (AddScreenshot i n p v)
  let ?t1 = "emit itemAdded (length (heap t))
          (t\<lparr>heap := heap t @ [\<lparr>item_id = i, path = p, preview = v, status = Pending,
                timestamp = n, metadata = None\<rparr>], queue := queue t @ [length (heap t)]\<rparr>)"
  have "int (fcard (processingQueue (processNext ?t1)))
          \<le> max (int (fcard (processingQueue t))) (maxConcurrent (config t))"
    using processNext_growth [of ?t1] by simp
  with AddScreenshot show ?thesis by (simp add: addScreenshot_def Let_def)
next
  case ProcessNext
  then show ?thesis by (simp add: processNext_growth)
next
  case (PipelineEnds r out)
  then show ?thesis
    using resume_growth [of r out "t\<lparr>awaiting := remove1 r (awaiting t)\<rparr>"] by simp
next
  case TimerFires
  show ?thesis
  proof (cases "timers t")
    case Nil
    with TimerFires show ?thesis by simp
  next
    case (Cons d ds)
    with TimerFires show ?thesis using processNext_growth [of "t\<lparr>timers := ds\<rparr>"] by simp
  qed
next
  case (RemoveScreenshot i)
  have "fcard (processingQueue t |-| {|i|}) \<le> fcard (processingQueue t)"
    by (rule fcard_fminus1_le)
  then have "int (fcard (processingQueue t |-| {|i|}))
               \<le> max (int (fcard (processingQueue t))) (maxConcurrent (config t))"
    by linarith
  with RemoveScreenshot show ?thesis by (simp add: removeScreenshot_def Let_def)
next
  case ClearQueue
  then show ?thesis by (simp add: clearQueue_def fcard_fempty)
qed (simp_all add: getQueueStats_def updateConfig_def on_def off_def)

text \<open>
  Claim C3, amended. Starting from a state within the cap, the number of ids in flight is
  at most \<open>maxConcurrent\<close> after every prefix of an execution in which no \<open>updateConfig\<close>
  sets \<open>maxConcurrent\<close> below the number of ids in flight at that moment. In every state,
  also above the cap after a lowering, an action leaves the in-flight set no larger than the
  greater of its size before and the cap, and \<open>processNext\<close> admits an item only while
  the in-flight set is smaller than \<open>maxConcurrent\<close>.
\<close>

theorem cap_respected_unless_lowered:
  assumes "int (fcard (processingQueue s)) \<le> maxConcurrent (config s)"
    and "capKeptAlong acts s"
  shows "(\<forall>n. int (fcard (processingQueue (run (take n acts) s)))
              \<le> maxConcurrent (config (run (take n acts) s)))
         \<and> (\<forall>a t. int (fcard (processingQueue (step a t)))
                    \<le> max (int (fcard (processingQueue t))) (maxConcurrent (config t)))
         \<and> (\<forall>t. processNext t = t
                  \<or> int (fcard (processingQueue t)) < maxConcurrent (config t))"
proof -
  have "int (fcard (processingQueue (run (take n acts) s)))
              \<le> maxConcurrent (config (run (take n acts) s))" for n
  proof -
    from assms(1) have "withinCap s" by (simp add: withinCap_def)
    moreover from assms(2) have "capKeptAlong (take n acts) s" by (rule capKeptAlong_take)
    ultimately have "withinCap (run (take n acts) s)" by (rule run_withinCap)
    then show ?thesis by (simp add: withinCap_def)
  qed
  then show ?thesis using step_growth processNext_guard by blast
qed

theorem cap_respected_unless_lowered_witness:
  "int (fcard (processingQueue (newManager (manualConfig 2 2))))
     \<le> maxConcurrent (config (newManager (manualConfig 2 2)))
   \<and> capKeptAlong capRaised (newManager (manualConfig 2 2))
   \<and> (\<forall>n. int (fcard (processingQueue (run (take n capRaised) (newManager (manualConfig 2 2)))))
            \<le> maxConcurrent (config (run (take n capRaised) (newManager (manualConfig 2 2)))))
   \<and> fcard (processingQueue (run capRaised (newManager (manualConfig 2 2)))) = 2
   \<and> fcard (processingQueue capLoweredPending) = 2
   \<and> maxConcurrent (config capLoweredPending) = 1
   \<and> map (\<lambda>r. status (heap capLoweredPending ! r)) (queue capLoweredPending)
       = [Processing, Processing, Pending]
   \<and> int (fcard (processingQueue (step ProcessNext capLoweredPending)))
       \<le> max (int (fcard (processingQueue capLoweredPending)))
             (maxConcurrent (config capLoweredPending))
   \<and> processNext capLoweredPending = capLoweredPending"
proof -
  have a: "int (fcard (processingQueue (newManager (manualConfig 2 2))))
     \<le> maxConcurrent (config (newManager (manualConfig 2 2)))"
    by code_simp
  have b: "capKeptAlong capRaised (newManager (manualConfig 2 2))"
    by code_simp
  have c: "fcard (processingQueue (run capRaised (newManager (manualConfig 2 2)))) = 2"
    by code_simp
  have d: "fcard (processingQueue capLoweredPending) = 2" by code_simp
  have e: "maxConcurrent (config capLoweredPending) = 1" by code_simp
  have f: "map (\<lambda>r. status (heap capLoweredPending ! r)) (queue capLoweredPending)
       = [Processing, Processing, Pending]" by code_simp
  note th = cap_respected_unless_lowered [OF a b]
  from th have g: "processNext capLoweredPending = capLoweredPending
      \<or> int (fcard (processingQueue capLoweredPending)) < maxConcurrent (config capLoweredPending)"
    by blast
  from g d e have h: "processNext capLoweredPending = capLoweredPending" by simp
  from th a b c d e f h show ?thesis by blast
qed

section \<open>References into the store\<close>

lemma fold_listeners_length:
  "length (fold (\<lambda>cb h. h[r := snd cb (h ! r)]) ls h) = length h"
  by (induction ls arbitrary: h) simp_all

lemma emit_length [simp]: "length (heap (emit ev r s)) = length (heap s)"
  by (simp add: emit_def fold_listeners_length)

lemma processNext_length [simp]: "length (heap (processNext s)) = length (heap s)"
  by (simp add: processNext_def Let_def split: option.splits)

lemma tryCatch_length [simp]: "length (heap (tryCatch r out s)) = length (heap s)"
  by (simp add: tryCatch_def Let_def split: outcome.splits)

lemma resume_length [simp]: "length (heap (resume r out s)) = length (heap s)"
  by (simp add: resume_def Let_def)

lemma validRefs_splice:
  assumes "distinct xs" and "list_all P xs"
  shows "distinct (take k xs @ drop (Suc k) xs) \<and> list_all P (take k xs @ drop (Suc k) xs)"
proof -
  have "set (take k xs) \<inter> set (drop (Suc k) xs) = {}"
    using assms(1) by (metis Suc_n_not_le_n nat_le_linear set_take_disj_set_drop_if_distinct)
  moreover have "set (take k xs) \<subseteq> set xs" "set (drop (Suc k) xs) \<subseteq> set xs"
    by (simp_all add: set_take_subset set_drop_subset)
  ultimately show ?thesis using assms by (auto simp: list_all_iff)
qed

lemma step_validRefs:
  assumes "validRefs s"
  shows "validRefs (step a s)"
proof (cases a)
  case (AddScreenshot i n p v)
  from assms have "length (heap s) \<notin> set (queue s)" by (auto simp: validRefs_def list_all_iff)
  with assms AddScreenshot show ?thesis
    by (auto simp: validRefs_def addScreenshot_def Let_def list_all_iff)
next
  case ProcessNext
  with assms show ?thesis by (simp add: validRefs_def)
next
  case (PipelineEnds r out)
  with assms show ?thesis by (simp add: validRefs_def resume_queue)
next
  case TimerFires
  with assms show ?thesis by (simp add: validRefs_def split: list.splits)
next
  case (RemoveScreenshot i)
  with assms show ?thesis
    using validRefs_splice [of "queue s" "\<lambda>q. q < length (heap s)"]
    by (simp add: validRefs_def removeScreenshot_def Let_def)
qed (use assms in \<open>simp_all add: validRefs_def getQueueStats_def clearQueue_def updateConfig_def on_def off_def\<close>)

lemma run_validRefs: "validRefs s \<Longrightarrow> validRefs (run acts s)"
  by (induction acts arbitrary: s) (simp_all add: step_validRefs)

lemma newManager_validRefs: "validRefs (newManager p)"
  by (simp add: validRefs_def newManager_def)

lemma findIndex_found:
  "findIndex P xs \<noteq> - 1 \<Longrightarrow>
   0 \<le> findIndex P xs \<and> nat (findIndex P xs) < length xs \<and> P (xs ! nat (findIndex P xs))"
proof (induction xs)
  case Nil
  then show ?case by simp
next
  case (Cons x xs)
  show ?case
  proof (cases "P x")
    case True
    then show ?thesis by simp
  next
    case False
    with Cons.prems have ne: "findIndex P xs \<noteq> - 1" by (simp add: Let_def split: if_splits)
    with Cons.IH have ih: "0 \<le> findIndex P xs" "nat (findIndex P xs) < length xs"
      "P (xs ! nat (findIndex P xs))" by simp_all
    from ih(1) have "nat (findIndex P xs + 1) = Suc (nat (findIndex P xs))" by simp
    with False ne ih show ?thesis by (simp add: Let_def)
  qed
qed

lemma nth_not_in_splice:
  assumes "distinct xs" and "k < length xs"
  shows "xs ! k \<notin> set (take k xs @ drop (Suc k) xs)"
proof -
  have "xs = take k xs @ xs ! k # drop (Suc k) xs" using assms(2) by (rule id_take_nth_drop)
  then have "distinct (take k xs @ xs ! k # drop (Suc k) xs)" using assms(1) by simp
  then show ?thesis by auto
qed

text \<open>An object that is in the store and not in the queue stays out of the queue.\<close>

lemma step_detached:
  assumes "r < length (heap s)" and "r \<notin> set (queue s)"
  shows "r < length (heap (step a s)) \<and> r \<notin> set (queue (step a s))"
proof (cases a)
  case (AddScreenshot i n p v)
  with assms show ?thesis by (auto simp: addScreenshot_def Let_def)
next
  case (PipelineEnds q out)
  with assms show ?thesis by (simp add: resume_queue)
next
  case TimerFires
  with assms show ?thesis by (simp split: list.splits)
next
  case (RemoveScreenshot i)
  with assms show ?thesis
    by (auto simp: removeScreenshot_def Let_def dest: in_set_takeD in_set_dropD)
qed (use assms in \<open>simp_all add: getQueueStats_def clearQueue_def updateConfig_def on_def off_def\<close>)

lemma run_detached:
  "r < length (heap s) \<Longrightarrow> r \<notin> set (queue s) \<Longrightarrow>
   r < length (heap (run acts s)) \<and> r \<notin> set (queue (run acts s))"
  by (induction acts arbitrary: s) (simp_all add: step_detached)

section \<open>Event payloads\<close>

lemma fold_listeners_nth:
  "r < length h \<Longrightarrow>
   fold (\<lambda>cb h. h[r := snd cb (h ! r)]) ls h
     = h[r := fold (\<lambda>cb item. snd cb item) ls (h ! r)]"
  by (induction ls arbitrary: h) simp_all

text \<open>
  Claim C5, as stated, fails: with a listener of \<open>itemAdded\<close> that sets the status of its
  payload, the item in the queue after \<open>addScreenshot\<close> is completed, where without the
  listener it is pending.
\<close>

theorem listener_mutation_counterexample:
  "map (\<lambda>r. status (heap (run (On itemAdded markCompleted # submitOne)
                              (newManager (manualConfig 2 2))) ! r))
       (queue (run (On itemAdded markCompleted # submitOne) (newManager (manualConfig 2 2))))
     = [Completed]
   \<and> map (\<lambda>r. status (heap (run submitOne (newManager (manualConfig 2 2))) ! r))
       (queue (run submitOne (newManager (manualConfig 2 2))))
     = [Pending]"
  by code_simp

lemma getQueue_emit:
  assumes "r < length (heap s)"
  shows "getQueue (emit ev r s)
           = map (\<lambda>q. if q = r then fold (\<lambda>cb item. snd cb item) (listeners s ev) (heap s ! r)
                       else heap s ! q) (queue s)"
  using assms by (simp add: getQueue_def emit_def fold_listeners_nth nth_list_update)

lemma getQueue_update:
  "r < length (heap s) \<Longrightarrow>
   getQueue (emit ev r (s\<lparr>heap := (heap s)[r := x]\<rparr>))
     = map (\<lambda>q. if q = r then fold (\<lambda>cb item. snd cb item) (listeners s ev) x
                 else heap s ! q) (queue s)"
  by (simp add: getQueue_emit)

lemma getQueue_processNext:
  assumes "list_all (\<lambda>q. q < length (heap s)) (queue s)"
  shows "processNext s = s
         \<or> (\<exists>q \<in> set (queue s). status (heap s ! q) = Pending
              \<and> getQueue (processNext s)
                  = map (\<lambda>x. if x = q
                              then fold (\<lambda>cb item. snd cb item) (listeners s itemProcessing)
                                     ((heap s ! q)\<lparr>status := Processing\<rparr>)
                              else heap s ! x) (queue s))"
proof (cases "maxConcurrent (config s) \<le> int (fcard (processingQueue s))")
  case True
  then show ?thesis by (simp add: processNext_def)
next
  case False
  show ?thesis
  proof (cases "find (\<lambda>r. status (heap s ! r) = Pending) (queue s)")
    case None
    with False show ?thesis by (simp add: processNext_def)
  next
    case (Some q)
    then have q: "q \<in> set (queue s)" "status (heap s ! q) = Pending"
      by (auto simp: find_Some_iff)
    with assms have lt: "q < length (heap s)" by (simp add: list_all_iff)
    have "getQueue (processNext s)
            = getQueue (emit itemProcessing q
                (s\<lparr>processingQueue := finsert (item_id (heap s ! q)) (processingQueue s),
                   heap := (heap s)[q := (heap s ! q)\<lparr>status := Processing\<rparr>]\<rparr>))"
      using False Some by (simp add: processNext_def Let_def getQueue_def)
    also have "\<dots> = map (\<lambda>x. if x = q
                              then fold (\<lambda>cb item. snd cb item) (listeners s itemProcessing)
                                     ((heap s ! q)\<lparr>status := Processing\<rparr>)
                              else heap s ! x) (queue s)"
      using lt by (simp add: getQueue_emit)
    finally show ?thesis using q by blast
  qed
qed

lemma getQueue_append_new:
  assumes "list_all (\<lambda>q. q < length (heap s)) (queue s)"
  shows "getQueue (emit itemAdded (length (heap s))
            (s\<lparr>heap := heap s @ [item], queue := queue s @ [length (heap s)]\<rparr>))
           = getQueue s @ [fold (\<lambda>cb x. snd cb x) (listeners s itemAdded) item]"
proof -
  let ?t = "s\<lparr>heap := heap s @ [item], queue := queue s @ [length (heap s)]\<rparr>"
  have "length (heap s) < length (heap ?t)" by simp
  then have "getQueue (emit itemAdded (length (heap s)) ?t)
      = map (\<lambda>q. if q = length (heap s)
                  then fold (\<lambda>cb x. snd cb x) (listeners ?t itemAdded) (heap ?t ! length (heap s))
                  else heap ?t ! q) (queue ?t)"
    by (rule getQueue_emit)
  also have "\<dots> = getQueue s @ [fold (\<lambda>cb x. snd cb x) (listeners s itemAdded) item]"
    using assms by (auto simp: getQueue_def list_all_iff nth_append)
  finally show ?thesis .
qed

lemma removeScreenshot_view:
  assumes "validRefs s"
    and "k = findIndex (\<lambda>q. item_id (heap s ! q) = i) (queue s)"
  shows "getQueue (snd (removeScreenshot i s))
           = (if k = - 1 then getQueue s
              else take (nat k) (getQueue s) @ drop (nat k + 1) (getQueue s))
         \<and> heap (snd (removeScreenshot i s))
           = (if k = - 1 then heap s
              else (heap s)[queue s ! nat k :=
                     fold (\<lambda>cb x. snd cb x) (listeners s itemRemoved) (heap s ! (queue s ! nat k))])"
proof (cases "k = - 1")
  case True
  with assms(2) show ?thesis by (simp add: removeScreenshot_def)
next
  case False
  let ?r = "queue s ! nat k"
  let ?t = "s\<lparr>queue := take (nat k) (queue s) @ drop (nat k + 1) (queue s),
              processingQueue := processingQueue s |-| {|i|},
              retryCounts := (retryCounts s)(i := None)\<rparr>"
  from False assms(2) have k: "nat k < length (queue s)"
    using findIndex_found [of "\<lambda>q. item_id (heap s ! q) = i" "queue s"] by simp
  with assms(1) have lt: "?r < length (heap s)" by (simp add: validRefs_def list_all_length)
  from assms(1) k have out: "?r \<notin> set (take (nat k) (queue s) @ drop (Suc (nat k)) (queue s))"
    by (intro nth_not_in_splice) (simp_all add: validRefs_def)
  from False assms(2) have eq: "snd (removeScreenshot i s) = emit itemRemoved ?r ?t"
    by (simp add: removeScreenshot_def Let_def)
  have "getQueue (emit itemRemoved ?r ?t)
          = map (\<lambda>q. if q = ?r then fold (\<lambda>cb x. snd cb x) (listeners ?t itemRemoved) (heap ?t ! ?r)
                      else heap ?t ! q) (queue ?t)"
    using lt by (intro getQueue_emit) simp
  also have "\<dots> = map (\<lambda>q. heap s ! q) (take (nat k) (queue s) @ drop (Suc (nat k)) (queue s))"
    using out by (intro map_cong) auto
  also have "\<dots> = take (nat k) (getQueue s) @ drop (nat k + 1) (getQueue s)"
    by (simp add: getQueue_def take_map drop_map)
  finally have a: "getQueue (snd (removeScreenshot i s))
      = take (nat k) (getQueue s) @ drop (nat k + 1) (getQueue s)"
    using eq by simp
  have b: "heap (snd (removeScreenshot i s))
      = (heap s)[?r := fold (\<lambda>cb x. snd cb x) (listeners s itemRemoved) (heap s ! ?r)]"
    using eq lt by (simp add: emit_def fold_listeners_nth)
  from False a b show ?thesis by simp
qed

text \<open>
  Claim C5, amended. Every event carries the item object itself, not a copy. In a state
  that a new manager can reach: after the \<open>itemAdded\<close> event of \<open>addScreenshot\<close> the queue
  ends with the new item as the listeners of \<open>itemAdded\<close>, run in registration order,
  left it; after \<open>processNext\<close> has admitted an item, and after a suspended call has ended
  for the item at \<open>r\<close>, the queue holds at that item's place what the listeners of
  \<open>itemProcessing\<close>, \<open>itemCompleted\<close> or \<open>itemError\<close> made of it (and is unchanged if \<open>r\<close>
  is no longer in the queue). For \<open>itemRemoved\<close> the payload is the object just spliced
  out: the listeners change that object in the store, and the queue is the old queue
  without the item, whatever they do.
\<close>

theorem events_carry_live_items:
  assumes "s = run acts (newManager p)"
    and "r < length (heap s)"
    and "item = \<lparr>item_id = i, path = pth, preview = prev, status = Pending,
                 timestamp = now, metadata = None\<rparr>"
    and "added = emit itemAdded (length (heap s))
                   (s\<lparr>heap := heap s @ [item], queue := queue s @ [length (heap s)]\<rparr>)"
    and "k = findIndex (\<lambda>q. item_id (heap s ! q) = j) (queue s)"
  shows "snd (addScreenshot i now pth prev s)
           = (if autoProcess (config s) then processNext added else added)
         \<and> getQueue added
           = getQueue s @ [fold (\<lambda>cb x. snd cb x) (listeners s itemAdded) item]
         \<and> (processNext s = s
            \<or> (\<exists>q \<in> set (queue s). status (heap s ! q) = Pending
                 \<and> getQueue (processNext s)
                     = map (\<lambda>x. if x = q
                                 then fold (\<lambda>cb x. snd cb x) (listeners s itemProcessing)
                                        ((heap s ! q)\<lparr>status := Processing\<rparr>)
                                 else heap s ! x) (queue s)))
         \<and> getQueue (tryCatch r (Resolved ps c) s)
           = map (\<lambda>x. if x = r
                       then fold (\<lambda>cb x. snd cb x) (listeners s itemCompleted)
                              ((heap s ! r)\<lparr>status := Completed,
                                 metadata := Some \<lparr>problemStatement = Some ps,
                                   solution = Some (case c of None \<Rightarrow> [] | Some y \<Rightarrow> y),
                                   error_message = None\<rparr>\<rparr>)
                       else heap s ! x) (queue s)
         \<and> getQueue (tryCatch r (Rejected m) s)
           = map (\<lambda>x. if x = r
                       then (if 0 < retryAttempts (config s)
                             then (heap s ! r)\<lparr>status := Pending\<rparr>
                             else fold (\<lambda>cb x. snd cb x) (listeners s itemError)
                                    ((heap s ! r)\<lparr>status := Error,
                                       metadata := Some \<lparr>problemStatement = None,
                                         solution = None, error_message = Some m\<rparr>\<rparr>))
                       else heap s ! x) (queue s)
         \<and> getQueue (snd (removeScreenshot j s))
           = (if k = - 1 then getQueue s
              else take (nat k) (getQueue s) @ drop (nat k + 1) (getQueue s))
         \<and> heap (snd (removeScreenshot j s))
           = (if k = - 1 then heap s
              else (heap s)[queue s ! nat k :=
                     fold (\<lambda>cb x. snd cb x) (listeners s itemRemoved) (heap s ! (queue s ! nat k))])"
proof -
  have v: "validRefs s" unfolding assms(1) by (intro run_validRefs newManager_validRefs)
  then have refs: "list_all (\<lambda>q. q < length (heap s)) (queue s)" by (simp add: validRefs_def)
  have "retryCounts (newManager p) = Map.empty" by (simp add: newManager_def)
  then have rc: "retryCounts s = Map.empty" unfolding assms(1) by (rule run_retryCounts_empty)
  have a1: "snd (addScreenshot i now pth prev s)
           = (if autoProcess (config s) then processNext added else added)"
    by (simp add: addScreenshot_def Let_def assms(3,4))
  have a2: "getQueue added
           = getQueue s @ [fold (\<lambda>cb x. snd cb x) (listeners s itemAdded) item]"
    unfolding assms(4) using refs by (rule getQueue_append_new)
  note b = getQueue_processNext [OF refs]
  have c1: "getQueue (tryCatch r (Resolved ps c) s)
           = map (\<lambda>x. if x = r
                       then fold (\<lambda>cb x. snd cb x) (listeners s itemCompleted)
                              ((heap s ! r)\<lparr>status := Completed,
                                 metadata := Some \<lparr>problemStatement = Some ps,
                                   solution = Some (case c of None \<Rightarrow> [] | Some y \<Rightarrow> y),
                                   error_message = None\<rparr>\<rparr>)
                       else heap s ! x) (queue s)"
    using assms(2) by (simp add: tryCatch_def getQueue_update)
  have d1: "getQueue (tryCatch r (Rejected m) s)
           = map (\<lambda>x. if x = r
                       then (if 0 < retryAttempts (config s)
                             then (heap s ! r)\<lparr>status := Pending\<rparr>
                             else fold (\<lambda>cb x. snd cb x) (listeners s itemError)
                                    ((heap s ! r)\<lparr>status := Error,
                                       metadata := Some \<lparr>problemStatement = None,
                                         solution = None, error_message = Some m\<rparr>\<rparr>))
                       else heap s ! x) (queue s)"
  proof (cases "0 < retryAttempts (config s)")
    case True
    with rc assms(2) show ?thesis
      by (simp add: tryCatch_def Let_def getQueue_def nth_list_update)
  next
    case False
    with rc assms(2) show ?thesis by (simp add: tryCatch_def Let_def getQueue_update)
  qed
  note e = removeScreenshot_view [OF v assms(5)]
  from a1 a2 b c1 d1 e show ?thesis by blast
qed

theorem events_carry_live_items_witness:
  "observed = run [On itemAdded markCompleted, On itemRemoved stampGone,
          AddScreenshot ''a'' 1 ''/a.png'' ''pa'', AddScreenshot ''b'' 2 ''/b.png'' ''pb'']
       (newManager (manualConfig 2 2))
   \<and> length (heap observed) = 2
   \<and> map status (getQueue observed) = [Completed, Completed]
   \<and> map status (getQueue (snd (addScreenshot ''c'' 3 ''/c.png'' ''pc'' observed)))
       = [Completed, Completed, Completed]
   \<and> map status (getQueue (tryCatch 0 (Rejected ''boom'') observed))
       = [Pending, Completed]
   \<and> getQueue (snd (removeScreenshot ''a'' observed)) = drop 1 (getQueue observed)
   \<and> map preview (getQueue (snd (removeScreenshot ''a'' observed))) = [''pb'']
   \<and> preview (heap (snd (removeScreenshot ''a'' observed)) ! 0) = ''gone''"
proof -
  let ?item = "\<lparr>item_id = ''c'', path = ''/c.png'', preview = ''pc'', status = Pending,
                 timestamp = 3, metadata = None\<rparr>"
  let ?added = "emit itemAdded (length (heap observed))
                   (observed\<lparr>heap := heap observed @ [?item],
                      queue := queue observed @ [length (heap observed)]\<rparr>)"
  let ?k = "findIndex (\<lambda>q. item_id (heap observed ! q) = ''a'') (queue observed)"
  have len: "length (heap observed) = 2" by code_simp
  then have r: "0 < length (heap observed)" by simp
  note th = events_carry_live_items [where s = observed and r = 0 and i = "''c''"
      and pth = "''/c.png''" and prev = "''pc''" and now = 3 and j = "''a''"
      and ps = "''problem''" and c = None and m = "''boom''",
      OF observed_def r refl refl refl]
  have auto: "\<not> autoProcess (config observed)" by code_simp
  have k: "?k = 0" by code_simp
  have pos: "0 < retryAttempts (config observed)" by code_simp
  have q0: "map status (getQueue observed) = [Completed, Completed]" by code_simp
  have a: "map status (getQueue observed
             @ [fold (\<lambda>cb x. snd cb x) (listeners observed itemAdded) ?item])
           = [Completed, Completed, Completed]"
    by code_simp
  have d: "map status (map (\<lambda>x. if x = 0 then (heap observed ! 0)\<lparr>status := Pending\<rparr>
                                 else heap observed ! x) (queue observed))
           = [Pending, Completed]"
    by code_simp
  have e: "map preview (drop 1 (getQueue observed)) = [''pb'']" by code_simp
  have g: "preview ((heap observed)[queue observed ! 0 :=
                     fold (\<lambda>cb x. snd cb x) (listeners observed itemRemoved)
                       (heap observed ! (queue observed ! 0))] ! 0) = ''gone''"
    by code_simp
  from th auto have 1: "map status (getQueue (snd (addScreenshot ''c'' 3 ''/c.png'' ''pc'' observed)))
       = [Completed, Completed, Completed]"
    using a by simp
  from th pos have 2: "map status (getQueue (tryCatch 0 (Rejected ''boom'') observed))
       = [Pending, Completed]"
    using d by simp
  from th k have 3: "getQueue (snd (removeScreenshot ''a'' observed)) = drop 1 (getQueue observed)"
    by simp
  from th k have 4: "preview (heap (snd (removeScreenshot ''a'' observed)) ! 0) = ''gone''"
    using g by simp
  from observed_def len q0 1 2 3 4 e show ?thesis by simp
qed

section \<open>Removal of an item in flight\<close>

text \<open>
  Claim C2, as stated, fails: the item is processing, \<open>removeScreenshot\<close> returns \<open>true\<close>
  and the queue is empty, and when the pipeline then resolves, \<open>itemCompleted\<close> is emitted
  for the removed item.
\<close>

theorem removed_item_event_counterexample:
  "status (heap oneInFlight ! 0) = Processing
   \<and> fst (removeScreenshot ''a'' oneInFlight) = True
   \<and> queue removedInFlight = []
   \<and> emitted (step (PipelineEnds 0 (Resolved ''problem'' (Some ''code''))) removedInFlight)
       = emitted removedInFlight @ [(itemCompleted, 0)]"
  by code_simp

lemma removeScreenshot_detaches:
  assumes "validRefs s" and "removeScreenshot i s = (True, s1)"
  shows "queue s ! nat (findIndex (\<lambda>q. item_id (heap s ! q) = i) (queue s)) < length (heap s1)
         \<and> queue s ! nat (findIndex (\<lambda>q. item_id (heap s ! q) = i) (queue s)) \<notin> set (queue s1)"
proof -
  let ?k = "findIndex (\<lambda>q. item_id (heap s ! q) = i) (queue s)"
  from assms(2) have ne: "?k \<noteq> - 1" by (auto simp: removeScreenshot_def Let_def split: if_splits)
  then have k: "nat ?k < length (queue s)" using findIndex_found [of _ "queue s"] by blast
  from assms(1) k have "queue s ! nat ?k < length (heap s)"
    by (simp add: validRefs_def list_all_length)
  moreover from assms(1) k have "queue s ! nat ?k \<notin> set (take (nat ?k) (queue s) @ drop (Suc (nat ?k)) (queue s))"
    by (intro nth_not_in_splice) (simp_all add: validRefs_def)
  moreover from assms(2) ne have "s1 = emit itemRemoved (queue s ! nat ?k)
       (s\<lparr>queue := take (nat ?k) (queue s) @ drop (nat ?k + 1) (queue s),
          processingQueue := processingQueue s |-| {|i|},
          retryCounts := (retryCounts s)(i := None)\<rparr>)"
    by (auto simp: removeScreenshot_def Let_def)
  ultimately show ?thesis by simp
qed

lemma processNext_emitted: "\<exists>more. emitted (processNext s) = emitted s @ more"
  by (simp add: processNext_def Let_def split: option.splits)

lemma tryCatch_resolved_item:
  assumes "r < length (heap s)"
  shows "heap (tryCatch r (Resolved ps c) s) ! r
           = fold (\<lambda>cb item. snd cb item) (listeners s itemCompleted)
               ((heap s ! r)\<lparr>status := Completed,
                  metadata := Some \<lparr>problemStatement = Some ps,
                                    solution = Some (case c of None \<Rightarrow> [] | Some x \<Rightarrow> x),
                                    error_message = None\<rparr>\<rparr>)"
  using assms by (simp add: tryCatch_def emit_def fold_listeners_nth)

text \<open>
  Claim C2, amended. Let \<open>removeScreenshot\<close> return \<open>true\<close> in a state that a new manager
  can reach, and let \<open>r\<close> be the item it removed. Whatever happens next, \<open>r\<close> is not in the
  queue when its pipeline ends, and the end of the pipeline leaves the queue as it is. The
  result is not discarded: a resolved pipeline writes \<open>Completed\<close> and the result into
  the removed item, hands it to the listeners of \<open>itemCompleted\<close> and emits
  \<open>itemCompleted\<close> for it; a rejected one emits \<open>itemError\<close> for it when \<open>retryAttempts\<close>
  is not positive, and nothing when it is.
\<close>

theorem removed_item_still_reported:
  assumes "s0 = run before (newManager p)"
    and "removeScreenshot i s0 = (True, s1)"
    and "r = queue s0 ! nat (findIndex (\<lambda>q. item_id (heap s0 ! q) = i) (queue s0))"
    and "s2 = run later s1"
  shows "r \<notin> set (queue s2)
         \<and> queue (resume r out s2) = queue s2
         \<and> queue (step (PipelineEnds r out) s2) = queue s2
         \<and> emitted (tryCatch r (Resolved ps c) s2) = emitted s2 @ [(itemCompleted, r)]
         \<and> (\<exists>more. emitted (resume r (Resolved ps c) s2)
                       = emitted s2 @ (itemCompleted, r) # more)
         \<and> heap (tryCatch r (Resolved ps c) s2) ! r
             = fold (\<lambda>cb item. snd cb item) (listeners s2 itemCompleted)
                 ((heap s2 ! r)\<lparr>status := Completed,
                    metadata := Some \<lparr>problemStatement = Some ps,
                                      solution = Some (case c of None \<Rightarrow> [] | Some x \<Rightarrow> x),
                                      error_message = None\<rparr>\<rparr>)
         \<and> emitted (finallyDelete r (tryCatch r (Rejected m) s2))
             = (if 0 < retryAttempts (config s2) then emitted s2
                else emitted s2 @ [(itemError, r)])"
proof -
  have "validRefs s0" unfolding assms(1) by (intro run_validRefs newManager_validRefs)
  with assms(2,3) have "r < length (heap s1) \<and> r \<notin> set (queue s1)"
    using removeScreenshot_detaches [of s0 i s1] by simp
  then have det: "r < length (heap s2)" "r \<notin> set (queue s2)"
    unfolding assms(4) using run_detached [of r s1 later] by simp_all
  have "retryCounts (newManager p) = Map.empty" by (simp add: newManager_def)
  then have "retryCounts s0 = Map.empty" unfolding assms(1) by (rule run_retryCounts_empty)
  then have "retryCounts (step (RemoveScreenshot i) s0) = Map.empty"
    by (rule step_retryCounts_empty)
  with assms(2) have "retryCounts s1 = Map.empty" by simp
  then have rc: "retryCounts s2 = Map.empty" unfolding assms(4) by (rule run_retryCounts_empty)
  have q: "queue (step (PipelineEnds r out) s2) = queue s2"
    by (simp add: resume_queue)
  have ev: "emitted (tryCatch r (Resolved ps c) s2) = emitted s2 @ [(itemCompleted, r)]"
    by (simp add: tryCatch_def)
  have er: "emitted (finallyDelete r (tryCatch r (Rejected m) s2))
             = (if 0 < retryAttempts (config s2) then emitted s2
                else emitted s2 @ [(itemError, r)])"
    using rc by (simp add: tryCatch_def Let_def)
  have "\<exists>more. emitted (resume r (Resolved ps c) s2)
                  = emitted (finallyDelete r (tryCatch r (Resolved ps c) s2)) @ more"
    using processNext_emitted [of "finallyDelete r (tryCatch r (Resolved ps c) s2)"]
    by (simp add: resume_def Let_def)
  then have full: "\<exists>more. emitted (resume r (Resolved ps c) s2)
                         = emitted s2 @ (itemCompleted, r) # more"
    using ev by simp
  from det(2) q ev er full tryCatch_resolved_item [OF det(1)] show ?thesis
    by (simp add: resume_queue)
qed

theorem removed_item_still_reported_witness:
  "status (heap (run dispatchOne (newManager (manualConfig 2 2))) ! 0) = Processing
   \<and> fst (removeScreenshot ''a'' (run dispatchOne (newManager (manualConfig 2 2)))) = True
   \<and> map (\<lambda>r. item_id (heap (removedThenSubmitted 2) ! r)) (queue (removedThenSubmitted 2)) = [''b'']
   \<and> 0 \<notin> set (queue (removedThenSubmitted 2))
   \<and> queue (step (PipelineEnds 0 (Resolved ''problem'' (Some ''code''))) (removedThenSubmitted 2))
       = queue (removedThenSubmitted 2)
   \<and> emitted (tryCatch 0 (Resolved ''problem'' (Some ''code'')) (removedThenSubmitted 2))
       = emitted (removedThenSubmitted 2) @ [(itemCompleted, 0)]
   \<and> emitted (resume 0 (Resolved ''problem'' (Some ''code'')) (removedThenSubmitted 2))
       = emitted (removedThenSubmitted 2) @ [(itemCompleted, 0)]
   \<and> status (heap (tryCatch 0 (Resolved ''problem'' (Some ''code'')) (removedThenSubmitted 2)) ! 0)
       = Completed
   \<and> emitted (finallyDelete 0 (tryCatch 0 (Rejected ''boom'') (removedThenSubmitted 2)))
       = emitted (removedThenSubmitted 2)
   \<and> fst (removeScreenshot ''a'' (run dispatchOne (newManager (manualConfig 2 0)))) = True
   \<and> emitted (finallyDelete 0 (tryCatch 0 (Rejected ''boom'') (removedThenSubmitted 0)))
       = emitted (removedThenSubmitted 0) @ [(itemError, 0)]"
proof -
  let ?s2 = "run dispatchOne (newManager (manualConfig 2 2))"
  let ?s0 = "run dispatchOne (newManager (manualConfig 2 0))"
  have st: "status (heap ?s2 ! 0) = Processing" by code_simp
  have f2: "fst (removeScreenshot ''a'' ?s2) = True" by code_simp
  have f0: "fst (removeScreenshot ''a'' ?s0) = True" by code_simp
  from f2 have r2: "removeScreenshot ''a'' ?s2 = (True, snd (removeScreenshot ''a'' ?s2))"
    by (simp add: prod_eq_iff)
  from f0 have r0: "removeScreenshot ''a'' ?s0 = (True, snd (removeScreenshot ''a'' ?s0))"
    by (simp add: prod_eq_iff)
  have k2: "0 = queue ?s2 ! nat (findIndex (\<lambda>q. item_id (heap ?s2 ! q) = ''a'') (queue ?s2))"
    by code_simp
  have k0: "0 = queue ?s0 ! nat (findIndex (\<lambda>q. item_id (heap ?s0 ! q) = ''a'') (queue ?s0))"
    by code_simp
  have l2: "removedThenSubmitted 2 = run submitAnother (snd (removeScreenshot ''a'' ?s2))"
    by (simp add: removedThenSubmitted_def)
  have l0: "removedThenSubmitted 0 = run submitAnother (snd (removeScreenshot ''a'' ?s0))"
    by (simp add: removedThenSubmitted_def)
  have ids: "map (\<lambda>r. item_id (heap (removedThenSubmitted 2) ! r)) (queue (removedThenSubmitted 2)) = [''b'']"
    by code_simp
  have p2: "0 < retryAttempts (config (removedThenSubmitted 2))" by code_simp
  have p0: "\<not> 0 < retryAttempts (config (removedThenSubmitted 0))" by code_simp
  have compl: "status (fold (\<lambda>cb item. snd cb item) (listeners (removedThenSubmitted 2) itemCompleted)
                 ((heap (removedThenSubmitted 2) ! 0)\<lparr>status := Completed,
                    metadata := Some \<lparr>problemStatement = Some ''problem'',
                                      solution = Some (case Some ''code'' of None \<Rightarrow> [] | Some x \<Rightarrow> x),
                                      error_message = None\<rparr>\<rparr>)) = Completed"
    by code_simp
  note a = removed_item_still_reported [OF refl r2 k2 l2, where out = "Resolved ''problem'' (Some ''code'')"
      and ps = "''problem''" and c = "Some ''code''" and m = "''boom''"]
  note b = removed_item_still_reported [OF refl r0 k0 l0, where out = "Rejected ''boom''"
      and ps = "''problem''" and c = "Some ''code''" and m = "''boom''"]
  have full: "emitted (resume 0 (Resolved ''problem'' (Some ''code'')) (removedThenSubmitted 2))
       = emitted (removedThenSubmitted 2) @ [(itemCompleted, 0)]"
    by code_simp
  from a b st f2 f0 ids p2 p0 compl full show ?thesis by simp
qed

section \<open>Solver calls of an item in error\<close>





lemma fold_kept_status:
  "list_all statusKept ls \<Longrightarrow>
   map status (fold (\<lambda>cb h. h[r := snd cb (h ! r)]) ls h) = map status h"
proof (induction ls arbitrary: h)
  case Nil
  show ?case by simp
next
  case (Cons cb ls)
  then have "status (snd cb (h ! r)) = status (h ! r)" by (simp add: statusKept_def)
  then have "map status (h[r := snd cb (h ! r)]) = map status h"
    by (cases "r < length h") (simp_all add: map_update list_update_beyond list_update_same_conv)
  with Cons show ?case by simp
qed

lemma emit_statuses:
  "list_all statusKept (listeners s ev) \<Longrightarrow> statuses (emit ev r s) = statuses s"
  by (simp add: statuses_def emit_def fold_kept_status)

lemma statuses_update:
  "list_all statusKept (listeners s ev) \<Longrightarrow>
   statuses (emit ev r (s\<lparr>heap := (heap s)[r := x]\<rparr>)) = (statuses s)[r := status x]"
  by (simp add: emit_statuses) (simp add: statuses_def map_update)

lemma tryCatch_listeners [simp]: "listeners (tryCatch r out s) = listeners s"
  by (simp add: tryCatch_def Let_def split: outcome.splits)

lemma finallyDelete_more [simp]:
  "listeners (finallyDelete r s) = listeners s"
  "extractCalls (finallyDelete r s) = extractCalls s"
  "awaiting (finallyDelete r s) = awaiting s"
  "statuses (finallyDelete r s) = statuses s"
  by (simp_all add: finallyDelete_def statuses_def)

lemma tryCatch_more [simp]:
  "extractCalls (tryCatch r out s) = extractCalls s"
  "awaiting (tryCatch r out s) = awaiting s"
  by (simp_all add: tryCatch_def Let_def split: outcome.splits)

lemma processNext_view:
  assumes "list_all statusKept (listeners s itemProcessing)"
    and "list_all (\<lambda>q. q < length (heap s)) (queue s)"
  shows "processNext s = s
         \<or> (\<exists>q pth. q < length (statuses s) \<and> statuses s ! q = Pending
              \<and> statuses (processNext s) = (statuses s)[q := Processing]
              \<and> extractCalls (processNext s) = extractCalls s @ [(q, pth)]
              \<and> awaiting (processNext s) = awaiting s @ [q])"
proof (cases "maxConcurrent (config s) \<le> int (fcard (processingQueue s))")
  case True
  then show ?thesis by (simp add: processNext_def)
next
  case False
  show ?thesis
  proof (cases "find (\<lambda>r. status (heap s ! r) = Pending) (queue s)")
    case None
    with False show ?thesis by (simp add: processNext_def)
  next
    case (Some q)
    then have q: "q \<in> set (queue s)" "status (heap s ! q) = Pending"
      by (auto simp: find_Some_iff)
    with assms(2) have lt: "q < length (heap s)" by (simp add: list_all_iff)
    let ?t = "s\<lparr>processingQueue := finsert (item_id (heap s ! q)) (processingQueue s)\<rparr>"
    let ?u = "emit itemProcessing q (?t\<lparr>heap := (heap ?t)[q := (heap ?t ! q)\<lparr>status := Processing\<rparr>]\<rparr>)"
    have pn: "processNext s
                = ?u\<lparr>extractCalls := extractCalls ?u @ [(q, path (heap ?u ! q))],
                     awaiting := awaiting ?u @ [q]\<rparr>"
      using False Some by (simp add: processNext_def Let_def)
    have "statuses ?u = (statuses ?t)[q := Processing]"
      using assms(1) statuses_update [of ?t itemProcessing q "(heap ?t ! q)\<lparr>status := Processing\<rparr>"]
      by simp
    then have st: "statuses (processNext s) = (statuses s)[q := Processing]"
      unfolding pn by (simp add: statuses_def)
    have "extractCalls (processNext s) = extractCalls s @ [(q, path (heap ?u ! q))]"
      unfolding pn by simp
    moreover have "awaiting (processNext s) = awaiting s @ [q]" unfolding pn by simp
    moreover from lt q have "q < length (statuses s)" "statuses s ! q = Pending"
      by (simp_all add: statuses_def)
    ultimately show ?thesis using st by blast
  qed
qed

lemma tryCatch_statuses:
  assumes "\<forall>ev. list_all statusKept (listeners s ev)" and "retryCounts s = Map.empty"
  shows "statuses (tryCatch r out s)
           = (statuses s)[r := (case out of Resolved ps c \<Rightarrow> Completed
                                 | Rejected m \<Rightarrow> if 0 < retryAttempts (config s) then Pending
                                                 else Error)]"
proof (cases out)
  case (Resolved ps c)
  then show ?thesis using assms(1) by (simp add: tryCatch_def statuses_update)
next
  case (Rejected m)
  show ?thesis
  proof (cases "0 < retryAttempts (config s)")
    case True
    with Rejected assms(2) show ?thesis
      by (simp add: tryCatch_def Let_def statuses_def map_update)
  next
    case False
    with Rejected assms show ?thesis by (simp add: tryCatch_def Let_def statuses_update)
  qed
qed

lemma settled_ready: "settled s \<Longrightarrow> ready s"
  by (simp add: settled_def ready_def validRefs_def)

lemma noError_update: "Error \<notin> set st \<Longrightarrow> v \<noteq> Error \<Longrightarrow> Error \<notin> set (st[q := v])"
  using set_update_subset_insert [of st q v] by auto

lemma processNext_noError:
  assumes "ready s" and "Error \<notin> set (statuses s)"
  shows "Error \<notin> set (statuses (processNext s))"
  using processNext_view [of s] assms by (auto simp: ready_def noError_update)


text \<open>The state of \<open>addScreenshot\<close> after the push and the \<open>itemAdded\<close> event.\<close>

lemma added_view:
  assumes "settled s" and "status item = Pending"
    and "t = emit itemAdded (length (heap s))
               (s\<lparr>heap := heap s @ [item], queue := queue s @ [length (heap s)]\<rparr>)"
  shows "ready t \<and> statuses t = statuses s @ [Pending]
         \<and> extractCalls t = extractCalls s \<and> awaiting t = awaiting s"
proof -
  from assms(1) have k: "list_all statusKept (listeners s itemAdded)"
    "list_all statusKept (listeners s itemProcessing)"
    and v: "list_all (\<lambda>q. q < length (heap s)) (queue s)"
    by (simp_all add: settled_def validRefs_def)
  from v have "list_all (\<lambda>q. q < Suc (length (heap s))) (queue s)"
    by (auto simp: list_all_iff)
  with k have "ready t" unfolding assms(3) by (simp add: ready_def)
  moreover have "statuses t = statuses s @ [Pending]"
    unfolding assms(3) using k(1) assms(2) by (simp add: emit_statuses) (simp add: statuses_def)
  ultimately show ?thesis unfolding assms(3) by simp
qed

lemma addScreenshot_view:
  "snd (addScreenshot i n p v s)
     = (let t = emit itemAdded (length (heap s))
                  (s\<lparr>heap := heap s @ [\<lparr>item_id = i, path = p, preview = v, status = Pending,
                         timestamp = n, metadata = None\<rparr>],
                     queue := queue s @ [length (heap s)]\<rparr>)
        in if autoProcess (config s) then processNext t else t)"
  by (simp add: addScreenshot_def Let_def)

text \<open>The state after \<open>try\<close>, \<open>catch\<close> and the deletions of \<open>finally\<close>.\<close>

lemma settle_view:
  assumes "settled s"
  shows "ready (finallyDelete r (tryCatch r out s))
         \<and> statuses (finallyDelete r (tryCatch r out s))
           = (statuses s)[r := (case out of Resolved ps c \<Rightarrow> Completed
                                 | Rejected m \<Rightarrow> if 0 < retryAttempts (config s) then Pending
                                                 else Error)]
         \<and> extractCalls (finallyDelete r (tryCatch r out s)) = extractCalls s
         \<and> awaiting (finallyDelete r (tryCatch r out s)) = awaiting s"
proof -
  from assms have "\<forall>ev. list_all statusKept (listeners s ev)" "retryCounts s = Map.empty"
    by (simp_all add: settled_def)
  then have "statuses (tryCatch r out s)
           = (statuses s)[r := (case out of Resolved ps c \<Rightarrow> Completed
                                 | Rejected m \<Rightarrow> if 0 < retryAttempts (config s) then Pending
                                                 else Error)]"
    by (rule tryCatch_statuses)
  moreover from assms have "ready (finallyDelete r (tryCatch r out s))"
    by (simp add: ready_def settled_def validRefs_def)
  ultimately show ?thesis by simp
qed

lemma awaiting_only_settled: "settled s \<Longrightarrow> settled (s\<lparr>awaiting := aw\<rparr>)"
  by (simp add: settled_def validRefs_def)

lemma timers_only_settled: "settled s \<Longrightarrow> settled (s\<lparr>timers := ds\<rparr>)"
  by (simp add: settled_def validRefs_def)

lemma resume_listeners [simp]: "listeners (resume r out s) = listeners s"
  by (simp add: resume_def Let_def)

lemma resume_config [simp]: "config (resume r out s) = config s"
  by (simp add: resume_def Let_def)

lemma step_settled:
  assumes "settled s" and "steady a"
  shows "settled (step a s)"
proof -
  from assms(1) have "retryCounts (step a s) = Map.empty"
    by (intro step_retryCounts_empty) (simp add: settled_def)
  moreover from assms(1) have "validRefs (step a s)"
    by (intro step_validRefs) (simp add: settled_def)
  moreover have "\<forall>ev. list_all statusKept (listeners (step a s) ev)"
  proof (cases a)
    case (AddScreenshot i n p v)
    with assms(1) show ?thesis by (simp add: settled_def addScreenshot_def Let_def)
  next
    case TimerFires
    with assms(1) show ?thesis by (simp add: settled_def split: list.splits)
  next
    case (RemoveScreenshot i)
    with assms(1) show ?thesis by (simp add: settled_def removeScreenshot_def Let_def)
  next
    case (On ev cb)
    with assms show ?thesis by (simp add: settled_def on_def)
  next
    case (Off ev cb)
    with assms(1) show ?thesis by (auto simp: settled_def off_def list_all_iff)
  qed (use assms(1) in \<open>simp_all add: settled_def getQueueStats_def clearQueue_def updateConfig_def\<close>)
  ultimately show ?thesis by (simp add: settled_def)
qed

lemma step_retryAttempts:
  "steady a \<Longrightarrow> retryAttempts (config (step a s)) = retryAttempts (config s)"
  by (cases a)
    (simp_all add: addScreenshot_def removeScreenshot_def getQueueStats_def clearQueue_def
       updateConfig_def mergeConfig_def on_def off_def Let_def split: list.splits)

lemma step_noError:
  assumes "settled s" and "0 < retryAttempts (config s)" and "Error \<notin> set (statuses s)"
  shows "Error \<notin> set (statuses (step a s))"
proof (cases a)
  case (AddScreenshot i n p v)
  let ?t = "emit itemAdded (length (heap s))
                  (s\<lparr>heap := heap s @ [\<lparr>item_id = i, path = p, preview = v, status = Pending,
                         timestamp = n, metadata = None\<rparr>],
                     queue := queue s @ [length (heap s)]\<rparr>)"
  from assms(1) have t: "ready ?t \<and> statuses ?t = statuses s @ [Pending]
         \<and> extractCalls ?t = extractCalls s \<and> awaiting ?t = awaiting s"
    by (rule added_view) simp_all
  with assms(3) have "Error \<notin> set (statuses ?t)" by simp
  with t have "Error \<notin> set (statuses (processNext ?t))" by (intro processNext_noError) simp_all
  with \<open>Error \<notin> set (statuses ?t)\<close> AddScreenshot show ?thesis
    by (simp add: addScreenshot_view Let_def)
next
  case ProcessNext
  with assms show ?thesis by (simp add: processNext_noError settled_ready)
next
  case (PipelineEnds r out)
  let ?s = "s\<lparr>awaiting := remove1 r (awaiting s)\<rparr>"
  let ?t = "finallyDelete r (tryCatch r out ?s)"
  have "settled ?s" using assms(1) by (rule awaiting_only_settled)
  then have t: "ready ?t \<and> statuses ?t
           = (statuses ?s)[r := (case out of Resolved ps c \<Rightarrow> Completed
                                 | Rejected m \<Rightarrow> if 0 < retryAttempts (config ?s) then Pending
                                                 else Error)]
         \<and> extractCalls ?t = extractCalls ?s \<and> awaiting ?t = awaiting ?s"
    by (rule settle_view)
  have "statuses ?s = statuses s" by (simp add: statuses_def)
  with t assms(2,3) have ne: "Error \<notin> set (statuses ?t)"
    by (cases out) (simp_all add: noError_update)
  with t have "Error \<notin> set (statuses (processNext ?t))" by (intro processNext_noError) simp_all
  with ne PipelineEnds assms(3) show ?thesis by (simp add: resume_def Let_def)
next
  case TimerFires
  show ?thesis
  proof (cases "timers s")
    case Nil
    with TimerFires assms(3) show ?thesis by simp
  next
    case (Cons d ds)
    have "ready (s\<lparr>timers := ds\<rparr>)" using assms(1) by (intro settled_ready timers_only_settled)
    moreover have "statuses (s\<lparr>timers := ds\<rparr>) = statuses s" by (simp add: statuses_def)
    ultimately have "Error \<notin> set (statuses (processNext (s\<lparr>timers := ds\<rparr>)))"
      using assms(3) by (intro processNext_noError) simp_all
    with TimerFires Cons show ?thesis by simp
  qed
next
  case (RemoveScreenshot i)
  from assms(1) have "list_all statusKept (listeners s itemRemoved)" by (simp add: settled_def)
  with RemoveScreenshot assms(3) show ?thesis
    by (simp add: removeScreenshot_def Let_def emit_statuses) (simp add: statuses_def)
qed (use assms(3) in \<open>simp_all add: statuses_def getQueueStats_def clearQueue_def updateConfig_def on_def off_def\<close>)


lemma run_noError:
  "settled s \<Longrightarrow> list_all steady acts \<Longrightarrow> 0 < retryAttempts (config s) \<Longrightarrow>
   Error \<notin> set (statuses s) \<Longrightarrow> Error \<notin> set (statuses (run acts s))"
  by (induction acts arbitrary: s) (simp_all add: step_settled step_retryAttempts step_noError)



lemma newManager_settled: "settled (newManager p)"
  by (simp add: settled_def validRefs_def newManager_def)

text \<open>
  With \<open>retryAttempts\<close> positive no item is ever in status \<open>Error\<close>: the retry count that
  \<open>catch\<close> reads is always 0.
\<close>

lemma no_error_while_retries_positive:
  assumes "0 < retryAttempts (config (newManager p))" and "list_all steady acts"
  shows "Error \<notin> set (statuses (run acts (newManager p)))"
proof -
  have "Error \<notin> set (statuses (newManager p))" by (simp add: statuses_def newManager_def)
  with assms show ?thesis by (intro run_noError newManager_settled)
qed



end
